theory Spec2Isabelle
  imports Main "HOL-Library.Word" "HOL-Library.List_Lexorder" "HOL-Library.Sublist"
begin

section \<open>JavaScript strings\<close>

text \<open>
  A JavaScript string is a sequence of UTF-16 code units.  The regular expression of
  \<open>updateFileCache\<close> has no \<open>u\<close> flag, and \<open>slice\<close>, \<open>split\<close>, \<open>trim\<close>, \<open>endsWith\<close>
  and the default comparison of \<open>Array.prototype.sort\<close> all work on code units, so a
  string is modelled as a list of 16-bit words.  \<open>str\<close> writes an ASCII literal.
\<close>

type_synonym jschar = "16 word"
type_synonym jsstring = "jschar list"

definition str :: "string \<Rightarrow> jsstring" where
  "str cs = map of_char cs"

definition LBRACKET :: jschar where "LBRACKET = 0x5B"
definition RBRACKET :: jschar where "RBRACKET = 0x5D"
definition BAR :: jschar where "BAR = 0x7C"

text \<open>
  \<open>String.prototype.slice(start, end)\<close>: a negative index counts from the end, both
  indices are clamped to the string, and an empty span gives the empty string.
\<close>

definition slice_str :: "jsstring \<Rightarrow> int \<Rightarrow> int \<Rightarrow> jsstring" where
  "slice_str s start end =
     (let len = int (length s);
          from = (if start < 0 then max (len + start) 0 else min start len);
          to = (if end < 0 then max (len + end) 0 else min end len);
          span = max (to - from) 0
      in take (nat span) (drop (nat from) s))"

text \<open>
  \<open>String.prototype.split(sep)\<close> for a separator of one code unit: the pieces between
  the occurrences of the separator.  The result always has a first element (the empty
  string splits into one empty piece), so \<open>[0]\<close> never reads \<open>undefined\<close>.
\<close>

fun split :: "jschar \<Rightarrow> jsstring \<Rightarrow> jsstring list" where
  "split sep [] = [[]]"
| "split sep (c # cs) =
     (if c = sep then [] # split sep cs
      else (case split sep cs of
              [] \<Rightarrow> [[c]]
            | p # ps \<Rightarrow> (c # p) # ps))"

text \<open>
  \<open>String.prototype.trim()\<close> removes leading and trailing WhiteSpace and LineTerminator
  code units (ECMAScript, \<open>TrimString\<close>).
\<close>

definition isWhiteSpace :: "jschar \<Rightarrow> bool" where
  "isWhiteSpace c \<longleftrightarrow>
     c = 0x0009 \<or> c = 0x000A \<or> c = 0x000B \<or> c = 0x000C \<or> c = 0x000D \<or> c = 0x0020 \<or>
     c = 0x00A0 \<or> c = 0x1680 \<or> (0x2000 \<le> c \<and> c \<le> 0x200A) \<or> c = 0x2028 \<or>
     c = 0x2029 \<or> c = 0x202F \<or> c = 0x205F \<or> c = 0x3000 \<or> c = 0xFEFF"

definition trim :: "jsstring \<Rightarrow> jsstring" where
  "trim s = rev (dropWhile isWhiteSpace (rev (dropWhile isWhiteSpace s)))"

text \<open>\<open>String.prototype.endsWith\<close>.\<close>

definition endsWith :: "jsstring \<Rightarrow> jsstring \<Rightarrow> bool" where
  "endsWith s t \<longleftrightarrow> suffix t s"

section \<open>The regular expression of \<open>updateFileCache\<close>\<close>

text \<open>
  \<^verbatim>\<open>/\[\[([^\]]+)\]\]/g\<close>: two opening brackets, one or more code units other than a
  closing bracket (greedy), two closing brackets.

  \<open>lit p s\<close> matches the literal \<open>p\<close> at the start of \<open>s\<close> and returns the rest.
  \<open>class_plus s\<close> lists the ways \<^verbatim>\<open>[^\]]+\<close> can match at the start of \<open>s\<close>, as
  (matched text, rest), in the order a backtracking matcher tries them: the greedy
  quantifier takes as many code units as it can and gives them back one at a time.
\<close>

definition lit :: "jsstring \<Rightarrow> jsstring \<Rightarrow> jsstring option" where
  "lit p s = (if prefix p s then Some (drop (length p) s) else None)"

fun class_plus :: "jsstring \<Rightarrow> (jsstring \<times> jsstring) list" where
  "class_plus [] = []"
| "class_plus (c # cs) =
     (if c = RBRACKET then []
      else map (\<lambda>(cap, rest). (c # cap, rest)) (class_plus cs) @ [([c], cs)])"

text \<open>
  One attempt of the whole expression at the start of \<open>s\<close>: the matched text and what
  follows it, or \<open>None\<close>.
\<close>

definition regexp_exec_at :: "jsstring \<Rightarrow> (jsstring \<times> jsstring) option" where
  "regexp_exec_at s =
     (case lit [LBRACKET, LBRACKET] s of
        None \<Rightarrow> None
      | Some r \<Rightarrow>
          (case List.find (\<lambda>(cap, rest). lit [RBRACKET, RBRACKET] rest \<noteq> None) (class_plus r) of
             None \<Rightarrow> None
           | Some (cap, rest) \<Rightarrow>
               Some ([LBRACKET, LBRACKET] @ cap @ [RBRACKET, RBRACKET], drop 2 rest)))"

text \<open>
  \<open>String.prototype.match\<close> with a global expression: attempts start at the beginning;
  after a match the next attempt starts where the match ended (\<open>lastIndex\<close>), after a
  failure one code unit further.  The result is the list of matched texts, or \<open>null\<close>
  (here \<open>None\<close>) when there is none.
\<close>

lemma find_append_cases:
  "List.find P (xs @ ys) = (case List.find P xs of None \<Rightarrow> List.find P ys | Some x \<Rightarrow> Some x)"
  by (induction xs) auto

lemma find_map_comp:
  "List.find P (map f xs) = map_option f (List.find (P \<circ> f) xs)"
  by (induction xs) auto

lemma class_plus_find_gen:
  assumes Q: "\<And>rest. Q rest \<Longrightarrow> rest \<noteq> [] \<and> hd rest = RBRACKET"
  shows "List.find (\<lambda>(cap, rest). Q rest) (class_plus s) =
     (if takeWhile (\<lambda>c. c \<noteq> RBRACKET) s \<noteq> [] \<and> Q (dropWhile (\<lambda>c. c \<noteq> RBRACKET) s)
      then Some (takeWhile (\<lambda>c. c \<noteq> RBRACKET) s, dropWhile (\<lambda>c. c \<noteq> RBRACKET) s)
      else None)"
proof (induction s)
  case Nil
  then show ?case by simp
next
  case (Cons c cs)
  let ?P = "\<lambda>(cap :: jsstring, rest). Q rest"
  let ?t = "takeWhile (\<lambda>c. c \<noteq> RBRACKET) cs"
  let ?d = "dropWhile (\<lambda>c. c \<noteq> RBRACKET) cs"
  have comp: "?P \<circ> (\<lambda>(cap, rest). (c # cap, rest)) = ?P"
    by (auto simp: fun_eq_iff)
  show ?case
  proof (cases "c = RBRACKET")
    case True
    then show ?thesis by simp
  next
    case False
    have step: "List.find ?P (class_plus (c # cs)) =
        (case List.find ?P (class_plus cs) of
           None \<Rightarrow> if Q cs then Some ([c], cs) else None
         | Some (cap, rest) \<Rightarrow> Some (c # cap, rest))"
      using False by (simp add: find_append_cases find_map_comp comp split: option.splits)
    show ?thesis
    proof (cases "?t \<noteq> [] \<and> Q ?d")
      case True
      with False show ?thesis by (simp add: step Cons.IH del: class_plus.simps)
    next
      case no: False
      show ?thesis
      proof (cases "?t = []")
        case True
        then have "?d = cs"
          by (metis append_Nil takeWhile_dropWhile_id)
        with True False show ?thesis by (simp add: step Cons.IH del: class_plus.simps)
      next
        case nonempty: False
        with no have nq: "\<not> Q ?d" by simp
        from nonempty have "cs \<noteq> [] \<and> hd cs \<noteq> RBRACKET"
          by (cases cs) (auto split: if_splits)
        with Q have "\<not> Q cs" by blast
        with nq nonempty False show ?thesis by (simp add: step Cons.IH del: class_plus.simps)
      qed
    qed
  qed
qed

lemma class_plus_find:
  "List.find (\<lambda>(cap, rest). lit [RBRACKET, RBRACKET] rest \<noteq> None) (class_plus s) =
     (if takeWhile (\<lambda>c. c \<noteq> RBRACKET) s \<noteq> [] \<and>
         lit [RBRACKET, RBRACKET] (dropWhile (\<lambda>c. c \<noteq> RBRACKET) s) \<noteq> None
      then Some (takeWhile (\<lambda>c. c \<noteq> RBRACKET) s, dropWhile (\<lambda>c. c \<noteq> RBRACKET) s)
      else None)"
  by (rule class_plus_find_gen) (auto simp: lit_def prefix_def split: if_splits)

lemma regexp_exec_at_iff:
  "regexp_exec_at s = Some (m, rest) \<longleftrightarrow>
     (\<exists>t. t \<noteq> [] \<and> RBRACKET \<notin> set t \<and>
          m = [LBRACKET, LBRACKET] @ t @ [RBRACKET, RBRACKET] \<and> s = m @ rest)"
proof
  assume a: "regexp_exec_at s = Some (m, rest)"
  then obtain r where r: "s = [LBRACKET, LBRACKET] @ r"
    by (auto simp: regexp_exec_at_def lit_def prefix_def split: if_splits option.splits)
  let ?t = "takeWhile (\<lambda>c. c \<noteq> RBRACKET) r"
  let ?d = "dropWhile (\<lambda>c. c \<noteq> RBRACKET) r"
  from a r have t: "?t \<noteq> []" and p: "prefix [RBRACKET, RBRACKET] ?d"
    and m: "m = [LBRACKET, LBRACKET] @ ?t @ [RBRACKET, RBRACKET]" and rest: "rest = drop 2 ?d"
    unfolding regexp_exec_at_def class_plus_find
    by (auto simp: lit_def split: if_splits)
  from p have d: "?d = [RBRACKET, RBRACKET] @ rest"
    by (auto simp: prefix_def rest)
  have "r = ?t @ ?d" by simp
  with d have "r = ?t @ [RBRACKET, RBRACKET] @ rest" by simp
  with r m have "s = m @ rest" by simp
  moreover have "RBRACKET \<notin> set ?t"
    by (auto dest: set_takeWhileD)
  ultimately show "\<exists>t. t \<noteq> [] \<and> RBRACKET \<notin> set t \<and>
      m = [LBRACKET, LBRACKET] @ t @ [RBRACKET, RBRACKET] \<and> s = m @ rest"
    using t m by blast
next
  assume "\<exists>t. t \<noteq> [] \<and> RBRACKET \<notin> set t \<and>
      m = [LBRACKET, LBRACKET] @ t @ [RBRACKET, RBRACKET] \<and> s = m @ rest"
  then obtain t where t: "t \<noteq> []" "RBRACKET \<notin> set t"
    and m: "m = [LBRACKET, LBRACKET] @ t @ [RBRACKET, RBRACKET]" and s: "s = m @ rest"
    by blast
  let ?r = "t @ RBRACKET # RBRACKET # rest"
  have tw: "takeWhile (\<lambda>c. c \<noteq> RBRACKET) ?r = t"
    using t(2) by (subst takeWhile_append2) auto
  have dw: "dropWhile (\<lambda>c. c \<noteq> RBRACKET) ?r = RBRACKET # RBRACKET # rest"
    using t(2) by (subst dropWhile_append2) auto
  have "lit [LBRACKET, LBRACKET] s = Some ?r"
    by (simp add: lit_def s m)
  moreover have "lit [RBRACKET, RBRACKET] (RBRACKET # RBRACKET # rest) = Some rest"
    by (simp add: lit_def)
  ultimately show "regexp_exec_at s = Some (m, rest)"
    unfolding regexp_exec_at_def class_plus_find
    using t(1) by (simp add: tw dw m)
qed

lemma regexp_exec_at_shorter:
  "regexp_exec_at s = Some (m, rest) \<Longrightarrow> length rest < length s"
  by (auto simp: regexp_exec_at_iff)

function matchAll :: "jsstring \<Rightarrow> jsstring list" where
  "matchAll [] = []"
| "matchAll (c # cs) =
     (case regexp_exec_at (c # cs) of
        Some (m, rest) \<Rightarrow> m # matchAll rest
      | None \<Rightarrow> matchAll cs)"
  by pat_completeness auto
termination
  by (relation "measure length") (auto dest: regexp_exec_at_shorter)

definition match_g :: "jsstring \<Rightarrow> jsstring list option" where
  "match_g s = (let ms = matchAll s in if ms = [] then None else Some ms)"

section \<open>Set and Map\<close>

text \<open>
  A JavaScript \<open>Set\<close> and \<open>Map\<close> iterate in insertion order: a \<open>Set\<close> is a list
  without repetition, a \<open>Map\<close> a list of entries.  \<open>add\<close> of a present element
  changes nothing; \<open>set\<close> on a present key replaces the value where the entry stands, on
  a new key it appends an entry; \<open>delete\<close> removes the entry of the key.
\<close>

definition setAdd :: "'a \<Rightarrow> 'a list \<Rightarrow> 'a list" where
  "setAdd x xs = (if x \<in> set xs then xs else xs @ [x])"

definition setHas :: "'a list \<Rightarrow> 'a \<Rightarrow> bool" where
  "setHas xs x \<longleftrightarrow> x \<in> set xs"

fun mapSet :: "'k \<Rightarrow> 'v \<Rightarrow> ('k \<times> 'v) list \<Rightarrow> ('k \<times> 'v) list" where
  "mapSet k v [] = [(k, v)]"
| "mapSet k v ((k', v') # m) = (if k' = k then (k, v) # m else (k', v') # mapSet k v m)"

definition mapGet :: "'k \<Rightarrow> ('k \<times> 'v) list \<Rightarrow> 'v option" where
  "mapGet k m = map_of m k"

definition mapHas :: "'k \<Rightarrow> ('k \<times> 'v) list \<Rightarrow> bool" where
  "mapHas k m \<longleftrightarrow> map_of m k \<noteq> None"

definition mapDelete :: "'k \<Rightarrow> ('k \<times> 'v) list \<Rightarrow> ('k \<times> 'v) list" where
  "mapDelete k m = filter (\<lambda>(k', v). k' \<noteq> k) m"

section \<open>The host application\<close>

text \<open>
  The plugin runs inside a host whose vault and workspace it only calls.  What those
  calls answer at one moment is a parameter of the model: a record of the answers.
  A rejected promise or a thrown \<open>Error\<close> is \<open>Inl\<close> of its message.
  \<^item> \<open>getAbstractFileByPath\<close>: the file or folder at a path, or \<open>null\<close>;
  \<^item> \<open>read\<close>: the content of a file;
  \<^item> \<open>getMarkdownFiles\<close>: the markdown files of the vault;
  \<^item> \<open>create\<close>: creates a file with a content, or fails;
  \<^item> \<open>openFile\<close>: opens a file in a leaf of the workspace; \<open>Some\<close> is a failure;
  \<^item> \<open>normalizePath\<close>: the host's path normalisation.
\<close>

datatype TAbstractFile =
    TFile (path: jsstring) (extension: jsstring)
  | TFolder (path: jsstring)

record app =
  getAbstractFileByPath :: "jsstring \<Rightarrow> TAbstractFile option"
  read :: "TAbstractFile \<Rightarrow> jsstring + jsstring"
  getMarkdownFiles :: "TAbstractFile list"
  create :: "jsstring \<Rightarrow> jsstring \<Rightarrow> jsstring + TAbstractFile"
  openFile :: "TAbstractFile \<Rightarrow> jsstring option"
  normalizePath :: "jsstring \<Rightarrow> jsstring"

section \<open>The plugin: \<open>AdoptOrphanPlugin\<close>\<close>

text \<open>
  The state of the plugin is its \<open>linkCache\<close>, a \<open>Map\<close> from a path to the \<open>Set\<close> of
  link names of the file.  Two observations are kept beside it: how many times
  \<open>refreshView\<close> has run, and what was written with \<open>console.error\<close>.
\<close>

record plugin =
  linkCache :: "(jsstring \<times> jsstring list) list"
  refreshes :: nat
  console :: "jsstring list"

definition initial :: plugin where
  "initial = \<lparr>linkCache = [], refreshes = 0, console = []\<rparr>"

definition refreshView :: "plugin \<Rightarrow> plugin" where
  "refreshView s = s\<lparr>refreshes := Suc (refreshes s)\<rparr>"

text \<open>
  The body of the loop of \<open>updateFileCache\<close> over the matches:
  \<^verbatim>\<open>match.slice(2, -2).split("|")[0].trim()\<close>, added to \<open>links\<close> when it is not the
  empty string.
\<close>

definition linkName :: "jsstring \<Rightarrow> jsstring" where
  "linkName m = trim (hd (split BAR (slice_str m 2 (- 2))))"

fun addLinks :: "jsstring list \<Rightarrow> jsstring list \<Rightarrow> jsstring list" where
  "addLinks [] links = links"
| "addLinks (m # ms) links =
     addLinks ms (if linkName m \<noteq> [] then setAdd (linkName m) links else links)"

text \<open>From the content read to the set \<open>links\<close> (lines 74 to 80 of the function).\<close>

definition extractLinks :: "jsstring \<Rightarrow> jsstring list" where
  "extractLinks content =
     (let matches = (case match_g content of None \<Rightarrow> [] | Some ms \<Rightarrow> ms)
      in addLinks matches [])"

text \<open>
  \<open>updateFileCache\<close>: every failure inside the \<open>try\<close> block is caught and written to
  the console.  The host's answers are those of one moment: the function is taken to run
  without another event between its steps.
\<close>

definition updateFileCache :: "app \<Rightarrow> jsstring \<Rightarrow> bool \<Rightarrow> plugin \<Rightarrow> plugin" where
  "updateFileCache a filePath skipRefresh s =
     (case getAbstractFileByPath a filePath of
        None \<Rightarrow> s
      | Some file \<Rightarrow>
          if \<not> is_TFile file then s
          else (case read a file of
                  Inl err \<Rightarrow> s\<lparr>console := console s @ [err]\<rparr>
                | Inr content \<Rightarrow>
                    (let links = extractLinks content;
                         s' = s\<lparr>linkCache := mapSet filePath links (linkCache s)\<rparr>
                     in if \<not> skipRefresh then refreshView s' else s')))"

definition buildCache :: "app \<Rightarrow> plugin \<Rightarrow> plugin" where
  "buildCache a s = fold (\<lambda>file. updateFileCache a (path file) True) (getMarkdownFiles a) s"

text \<open>The handlers that \<open>onload\<close> registers for the events of the vault.\<close>

definition onCreate :: "app \<Rightarrow> TAbstractFile \<Rightarrow> plugin \<Rightarrow> plugin" where
  "onCreate a file s =
     (if is_TFile file \<and> extension file = str ''md''
      then updateFileCache a (path file) False s else s)"

definition onDelete :: "TAbstractFile \<Rightarrow> plugin \<Rightarrow> plugin" where
  "onDelete file s = refreshView (s\<lparr>linkCache := mapDelete (path file) (linkCache s)\<rparr>)"

definition onRename :: "TAbstractFile \<Rightarrow> jsstring \<Rightarrow> plugin \<Rightarrow> plugin" where
  "onRename file oldPath s =
     refreshView
       (if mapHas oldPath (linkCache s)
        then s\<lparr>linkCache :=
                 mapDelete oldPath
                   (mapSet (path file)
                      (case mapGet oldPath (linkCache s) of Some links \<Rightarrow> links | None \<Rightarrow> [])
                      (linkCache s))\<rparr>
        else s)"

definition onModify :: "app \<Rightarrow> TAbstractFile \<Rightarrow> plugin \<Rightarrow> plugin" where
  "onModify a file s =
     (if is_TFile file \<and> extension file = str ''md''
      then updateFileCache a (path file) False s else s)"

section \<open>The view: \<open>OrphanLinksView\<close>\<close>

text \<open>
  \<open>getOrphans\<close>: the paths of the markdown files as a \<open>Set\<close>, then every link of every
  entry of the cache, kept when neither the link with \<open>.md\<close> appended nor the link itself
  is one of the paths; \<open>Array.from(orphans).sort()\<close> orders the strings by their code
  units, which for distinct strings has one result whatever the algorithm.
\<close>

definition resolves :: "jsstring list \<Rightarrow> jsstring \<Rightarrow> bool" where
  "resolves paths link \<longleftrightarrow> list_ex (setHas paths) [link @ str ''.md'', link]"

definition getOrphans :: "app \<Rightarrow> plugin \<Rightarrow> jsstring list" where
  "getOrphans a s =
     (let paths = fold setAdd (map path (getMarkdownFiles a)) [];
          orphans =
            fold (\<lambda>(k, links) orphans.
                    fold (\<lambda>link orphans.
                            if \<not> resolves paths link then setAdd link orphans else orphans)
                         links orphans)
                 (linkCache s) []
      in sort orphans)"

text \<open>
  \<open>createFile\<close> answers with what the user sees and what the vault was asked to hold:
  a file created, a file opened, a notice.
\<close>

datatype effect = Created TAbstractFile | Opened TAbstractFile | Notice jsstring

definition createFile :: "app \<Rightarrow> jsstring \<Rightarrow> effect list" where
  "createFile a link =
     (let fileName = (if endsWith link (str ''.md'') then link else link @ str ''.md'')
      in case create a fileName [] of
           Inl message \<Rightarrow> [Notice (str ''Failed to create file: '' @ message)]
         | Inr file \<Rightarrow>
             (case openFile a file of
                Some message \<Rightarrow> [Created file, Notice (str ''Failed to create file: '' @ message)]
              | None \<Rightarrow> [Created file, Opened file, Notice (str ''Created: '' @ fileName)]))"

text \<open>
  The \<open>createFile\<close> of the revision kept in \<open>src/README.md\<close>, which looks the path up
  before it creates the file.
\<close>

definition createFile_existing :: "app \<Rightarrow> jsstring \<Rightarrow> effect list" where
  "createFile_existing a link =
     (let fileName = (if endsWith link (str ''.md'') then link else link @ str ''.md'');
          normalizedPath = normalizePath a fileName
      in case getAbstractFileByPath a normalizedPath of
           Some existingFile \<Rightarrow>
             (case openFile a existingFile of
                Some message \<Rightarrow> [Notice (str ''Failed to create file: '' @ message)]
              | None \<Rightarrow>
                  [Opened existingFile, Notice (str ''Opened existing file: '' @ normalizedPath)])
         | None \<Rightarrow>
             (case create a normalizedPath [] of
                Inl message \<Rightarrow> [Notice (str ''Failed to create file: '' @ message)]
              | Inr file \<Rightarrow>
                  (case openFile a file of
                     Some message \<Rightarrow>
                       [Created file, Notice (str ''Failed to create file: '' @ message)]
                   | None \<Rightarrow>
                       [Created file, Opened file, Notice (str ''Created: '' @ normalizedPath)])))"

section \<open>The scan of the specification\<close>

text \<open>
  The scan as the specification words it.  A marker is two opening brackets, a target,
  two closing brackets; the target is not empty and holds no closing bracket.
  \<open>scan s ts\<close>: reading \<open>s\<close> from the left, \<open>ts\<close> are the targets of the markers found,
  each the leftmost marker of what is left after the marker before it; the scan ends where
  no marker is left.
\<close>

definition target :: "jsstring \<Rightarrow> bool" where
  "target t \<longleftrightarrow> t \<noteq> [] \<and> RBRACKET \<notin> set t"

definition marker :: "jsstring \<Rightarrow> jsstring" where
  "marker t = [LBRACKET, LBRACKET] @ t @ [RBRACKET, RBRACKET]"

inductive scan :: "jsstring \<Rightarrow> jsstring list \<Rightarrow> bool" where
  scan_end:
    "\<forall>pre t post. target t \<longrightarrow> s \<noteq> pre @ marker t @ post \<Longrightarrow> scan s []"
| scan_marker:
    "target t \<Longrightarrow> s = pre @ marker t @ post \<Longrightarrow>
     \<forall>pre' t' post'. target t' \<and> s = pre' @ marker t' @ post' \<longrightarrow> length pre \<le> length pre' \<Longrightarrow>
     scan post ts \<Longrightarrow> scan s (t # ts)"

text \<open>
  Trimming as the specification words it: \<open>stripped s n\<close> says that \<open>n\<close> is \<open>s\<close>
  without its surrounding white space.  What stands before \<open>n\<close> in \<open>s\<close> and what
  stands after it is white space only, and \<open>n\<close> itself neither starts nor ends with
  white space.
\<close>

definition stripped :: "jsstring \<Rightarrow> jsstring \<Rightarrow> bool" where
  "stripped s n \<longleftrightarrow>
     (\<exists>l r. s = l @ n @ r \<and> list_all isWhiteSpace l \<and> list_all isWhiteSpace r) \<and>
     (n \<noteq> [] \<longrightarrow> \<not> isWhiteSpace (hd n) \<and> \<not> isWhiteSpace (last n))"

section \<open>Auxiliary definitions\<close>

text \<open>What \<open>updateFileCache\<close> reads: the content of the file at a path, when there is one.\<close>

definition contentAt :: "app \<Rightarrow> jsstring \<Rightarrow> jsstring option" where
  "contentAt a p =
     (case getAbstractFileByPath a p of
        None \<Rightarrow> None
      | Some file \<Rightarrow>
          if is_TFile file then (case read a file of Inl err \<Rightarrow> None | Inr c \<Rightarrow> Some c)
          else None)"

text \<open>The two loops of \<open>getOrphans\<close>, the inner one over the links of an entry.\<close>

definition orphansOf :: "jsstring list \<Rightarrow> jsstring list \<Rightarrow> jsstring list \<Rightarrow> jsstring list" where
  "orphansOf paths links orphans =
     fold (\<lambda>link orphans. if \<not> resolves paths link then setAdd link orphans else orphans)
       links orphans"

section \<open>Sample hosts\<close>

text \<open>
  A host holding the listed files and folders, each with what reading it gives; it
  refuses to create a file where one stands.  It gives the theorems below concrete
  inputs.
\<close>

definition hostOf :: "(TAbstractFile \<times> (jsstring + jsstring)) list \<Rightarrow> app" where
  "hostOf fs =
     \<lparr>getAbstractFileByPath = (\<lambda>p. map_option fst (List.find (\<lambda>(f, c). path f = p) fs)),
      read = (\<lambda>f. case map_of fs f of Some c \<Rightarrow> c | None \<Rightarrow> Inl (str ''File not found.'')),
      getMarkdownFiles = filter (\<lambda>f. is_TFile f \<and> extension f = str ''md'') (map fst fs),
      create = (\<lambda>p c. if p \<in> set (map (path \<circ> fst) fs)
                        then Inl (str ''File already exists.'')
                        else Inr (TFile p (str ''md''))),
      openFile = (\<lambda>f. None),
      normalizePath = (\<lambda>p. p)\<rparr>"

definition mdFile :: "string \<Rightarrow> TAbstractFile" where
  "mdFile name = TFile (str name) (str ''md'')"

section \<open>Strings: auxiliary facts\<close>

lemma split_not_Nil: "split sep s \<noteq> []"
  by (induction s) (auto split: list.splits)

lemma hd_split: "hd (split sep s) = takeWhile (\<lambda>c. c \<noteq> sep) s"
  by (induction s) (auto split: list.splits simp: split_not_Nil)

lemma slice_brackets: "slice_str ([a, b] @ t @ [c, d]) 2 (- 2) = t"
  by (simp add: slice_str_def Let_def)

section \<open>Set and Map: auxiliary facts\<close>

lemma set_setAdd: "set (setAdd x xs) = insert x (set xs)"
  by (auto simp: setAdd_def)

lemma distinct_setAdd: "distinct xs \<Longrightarrow> distinct (setAdd x xs)"
  by (auto simp: setAdd_def)

lemma mapGet_mapSet: "mapGet k' (mapSet k v m) = (if k' = k then Some v else mapGet k' m)"
  by (induction m) (auto simp: mapGet_def)

lemma mapSet_idem: "mapSet k v (mapSet k v m) = mapSet k v m"
  by (induction m) auto

lemma mapGet_mapDelete: "mapGet k' (mapDelete k m) = (if k' = k then None else mapGet k' m)"
  by (induction m) (auto simp: mapGet_def mapDelete_def)

lemmas extract_eval =
  extractLinks_def match_g_def regexp_exec_at_def lit_def str_def LBRACKET_def RBRACKET_def
  BAR_def linkName_def slice_str_def trim_def isWhiteSpace_def setAdd_def Let_def

lemmas host_eval = hostOf_def mdFile_def str_def contentAt_def

section \<open>Extraction\<close>

lemma regexp_exec_at_marker:
  "regexp_exec_at s = Some (m, rest) \<longleftrightarrow> (\<exists>t. target t \<and> m = marker t \<and> s = m @ rest)"
  by (simp add: regexp_exec_at_iff target_def marker_def)

lemma regexp_exec_at_None:
  "regexp_exec_at s = None \<longleftrightarrow> (\<forall>t post. target t \<longrightarrow> s \<noteq> marker t @ post)"
proof
  assume n: "regexp_exec_at s = None"
  show "\<forall>t post. target t \<longrightarrow> s \<noteq> marker t @ post"
  proof (intro allI impI notI)
    fix t post
    assume "target t" "s = marker t @ post"
    then have "regexp_exec_at s = Some (marker t, post)"
      unfolding regexp_exec_at_marker by blast
    with n show False by simp
  qed
next
  assume a: "\<forall>t post. target t \<longrightarrow> s \<noteq> marker t @ post"
  show "regexp_exec_at s = None"
  proof (cases "regexp_exec_at s")
    case None
    then show ?thesis .
  next
    case (Some r)
    obtain m rest where "r = (m, rest)" by (cases r)
    with Some have "regexp_exec_at s = Some (m, rest)" by simp
    then obtain t where "target t" "s = marker t @ rest"
      unfolding regexp_exec_at_marker by blast
    with a show ?thesis by blast
  qed
qed

lemma marker_not_Nil: "marker t \<noteq> []"
  by (simp add: marker_def)

lemma slice_marker: "slice_str (marker t) 2 (- 2) = t"
  unfolding marker_def by (rule slice_brackets)

lemma scan_Cons:
  assumes "scan cs ts" and none: "regexp_exec_at (c # cs) = None"
  shows "scan (c # cs) ts"
  using assms(1)
proof cases
  case scan_end
  have "\<forall>pre t post. target t \<longrightarrow> c # cs \<noteq> pre @ marker t @ post"
  proof (intro allI impI notI)
    fix pre t post
    assume t: "target t" and eq: "c # cs = pre @ marker t @ post"
    show False
    proof (cases pre)
      case Nil
      from none have "\<forall>t post. target t \<longrightarrow> c # cs \<noteq> marker t @ post"
        by (simp only: regexp_exec_at_None)
      with t eq Nil show False by auto
    next
      case (Cons d pre')
      with eq have "cs = pre' @ marker t @ post" by simp
      with t scan_end(2) show False by blast
    qed
  qed
  with scan_end(1) show ?thesis by (simp add: scan.scan_end)
next
  case (scan_marker t pre post ts')
  have eq: "c # cs = (c # pre) @ marker t @ post"
    using scan_marker(3) by simp
  have least: "\<forall>pre' t' post'. target t' \<and> c # cs = pre' @ marker t' @ post' \<longrightarrow>
      length (c # pre) \<le> length pre'"
  proof (intro allI impI)
    fix pre' t' post'
    assume a: "target t' \<and> c # cs = pre' @ marker t' @ post'"
    show "length (c # pre) \<le> length pre'"
    proof (cases pre')
      case Nil
      from none have "\<forall>t post. target t \<longrightarrow> c # cs \<noteq> marker t @ post"
        by (simp only: regexp_exec_at_None)
      with a Nil show ?thesis by auto
    next
      case (Cons d p)
      with a have "target t' \<and> cs = p @ marker t' @ post'" by simp
      with scan_marker(4) have "length pre \<le> length p" by blast
      with Cons show ?thesis by simp
    qed
  qed
  show ?thesis
    unfolding scan_marker(1)
    by (rule scan.scan_marker [OF scan_marker(2) eq least scan_marker(5)])
qed

lemma scan_matchAll: "scan s (map (\<lambda>m. slice_str m 2 (- 2)) (matchAll s))"
proof (induction s rule: matchAll.induct)
  case 1
  show ?case
    by (simp add: scan.scan_end marker_not_Nil)
next
  case (2 c cs)
  show ?case
  proof (cases "regexp_exec_at (c # cs)")
    case None
    with 2(1) have "scan cs (map (\<lambda>m. slice_str m 2 (- 2)) (matchAll cs))" by simp
    then have "scan (c # cs) (map (\<lambda>m. slice_str m 2 (- 2)) (matchAll cs))"
      using None by (rule scan_Cons)
    with None show ?thesis by simp
  next
    case (Some r)
    obtain m rest where r: "r = (m, rest)" by (cases r)
    with Some have ex: "regexp_exec_at (c # cs) = Some (m, rest)" by simp
    then obtain t where t: "target t" and m: "m = marker t" and eq: "c # cs = m @ rest"
      unfolding regexp_exec_at_marker by blast
    from 2(2) [OF Some r [symmetric]]
    have rest: "scan rest (map (\<lambda>m. slice_str m 2 (- 2)) (matchAll rest))" .
    have "scan (c # cs) (t # map (\<lambda>m. slice_str m 2 (- 2)) (matchAll rest))"
    proof (rule scan.scan_marker [OF t _ _ rest])
      show "c # cs = [] @ marker t @ rest" using eq m by simp
      show "\<forall>pre' t' post'. target t' \<and> c # cs = pre' @ marker t' @ post' \<longrightarrow>
          length ([] :: jsstring) \<le> length pre'"
        by simp
    qed
    then show ?thesis
      using ex m by (simp add: slice_marker)
  qed
qed

lemma scan_unique:
  "scan s ts \<Longrightarrow> scan s ts' \<Longrightarrow> ts = ts'"
proof (induction arbitrary: ts' rule: scan.induct)
  case (scan_end s)
  from scan_end.prems show ?case
  proof cases
    case scan_end
    then show ?thesis by simp
  next
    case (scan_marker t pre post ts)
    with scan_end.hyps show ?thesis by blast
  qed
next
  case (scan_marker t s pre post ts)
  from scan_marker.prems show ?case
  proof cases
    case scan_end
    with scan_marker.hyps(1,2) show ?thesis by blast
  next
    case other: (scan_marker t2 pre2 post2 ts2)
    have "length pre \<le> length pre2"
      using scan_marker.hyps(3) other(2,3) by blast
    moreover have "length pre2 \<le> length pre"
      using other(4) scan_marker.hyps(1,2) by blast
    ultimately have len: "length pre = length pre2" by simp
    have "pre @ marker t @ post = pre2 @ marker t2 @ post2"
      using scan_marker.hyps(2) other(3) by simp
    with len have eq: "marker t @ post = marker t2 @ post2"
      by simp
    have "regexp_exec_at (marker t @ post) = Some (marker t, post)"
      unfolding regexp_exec_at_marker using scan_marker.hyps(1) by blast
    moreover have "regexp_exec_at (marker t @ post) = Some (marker t2, post2)"
      unfolding regexp_exec_at_marker eq using other(2) by blast
    ultimately have "marker t = marker t2" and post: "post = post2"
      by simp_all
    then have t: "t = t2"
      by (simp add: marker_def)
    from other(5) post have "ts = ts2"
      by (simp add: scan_marker.IH)
    with t other(1) show ?thesis by simp
  qed
qed

lemma scan_has_closing:
  assumes "scan s (t # ts)"
  shows "\<exists>pre post. s = pre @ [RBRACKET, RBRACKET] @ post"
  using assms
proof cases
  case (scan_marker pre post)
  then have "s = (pre @ [LBRACKET, LBRACKET] @ t) @ [RBRACKET, RBRACKET] @ post"
    by (simp add: marker_def)
  then show ?thesis by blast
qed

lemma match_g_or_empty:
  "(case match_g content of None \<Rightarrow> [] | Some ms \<Rightarrow> ms) = matchAll content"
  by (simp add: match_g_def Let_def)

lemma linkName_eq:
  "linkName m = trim (takeWhile (\<lambda>c. c \<noteq> BAR) (slice_str m 2 (- 2)))"
  by (simp add: linkName_def hd_split)

lemma set_addLinks:
  "set (addLinks ms acc) = set acc \<union> {n. n \<noteq> [] \<and> (\<exists>m \<in> set ms. n = linkName m)}"
  by (induction ms arbitrary: acc) (auto simp: set_setAdd)

lemma distinct_addLinks:
  "distinct acc \<Longrightarrow> distinct (addLinks ms acc)"
  by (induction ms arbitrary: acc) (auto simp: distinct_setAdd)

lemma set_extractLinks:
  "set (extractLinks content) =
     {n. n \<noteq> [] \<and>
         (\<exists>t \<in> set (map (\<lambda>m. slice_str m 2 (- 2)) (matchAll content)).
            n = trim (takeWhile (\<lambda>c. c \<noteq> BAR) t))}"
  by (auto simp: extractLinks_def match_g_or_empty set_addLinks linkName_eq)

lemma distinct_extractLinks: "distinct (extractLinks content)"
  by (simp add: extractLinks_def distinct_addLinks)

lemma extractLinks_no_closing:
  assumes "\<forall>pre post. content \<noteq> pre @ [RBRACKET, RBRACKET] @ post"
  shows "extractLinks content = []"
proof -
  have "matchAll content = []"
  proof (cases "matchAll content")
    case Nil
    then show ?thesis .
  next
    case (Cons m ms)
    with scan_matchAll [of content]
    have "scan content (slice_str m 2 (- 2) # map (\<lambda>m. slice_str m 2 (- 2)) ms)" by simp
    then have "\<exists>pre post. content = pre @ [RBRACKET, RBRACKET] @ post"
      by (rule scan_has_closing)
    with assms show ?thesis by blast
  qed
  then show ?thesis
    by (simp add: extractLinks_def match_g_def)
qed

text \<open>What \<open>trim\<close> removes is white space, and what it leaves neither starts nor ends with it.\<close>

lemma trim_surrounding:
  "\<exists>l r. s = l @ trim s @ r \<and> list_all isWhiteSpace l \<and> list_all isWhiteSpace r \<and>
     (trim s \<noteq> [] \<longrightarrow> \<not> isWhiteSpace (hd (trim s)) \<and> \<not> isWhiteSpace (last (trim s)))"
proof -
  let ?l = "takeWhile isWhiteSpace s"
  let ?d = "dropWhile isWhiteSpace s"
  let ?r = "rev (takeWhile isWhiteSpace (rev ?d))"
  have d: "?d = trim s @ ?r"
    unfolding trim_def by (metis rev_append rev_rev_ident takeWhile_dropWhile_id)
  have "s = ?l @ ?d" by simp
  with d have 1: "s = ?l @ trim s @ ?r" by simp
  have 2: "list_all isWhiteSpace ?l"
    by (simp add: list_all_iff) (meson set_takeWhileD)
  have 3: "list_all isWhiteSpace ?r"
    by (simp add: list_all_iff) (meson set_takeWhileD)
  have 4: "\<not> isWhiteSpace (hd (trim s)) \<and> \<not> isWhiteSpace (last (trim s))" if ne: "trim s \<noteq> []"
  proof
    from ne d have "hd (trim s) = hd ?d" by (metis hd_append2)
    moreover from ne d have "?d \<noteq> []" by (metis append_is_Nil_conv)
    ultimately show "\<not> isWhiteSpace (hd (trim s))"
      by (metis hd_dropWhile)
    from ne have ne': "dropWhile isWhiteSpace (rev ?d) \<noteq> []"
      by (simp add: trim_def)
    then have "\<not> isWhiteSpace (hd (dropWhile isWhiteSpace (rev ?d)))"
      by (rule hd_dropWhile)
    moreover have "last (trim s) = hd (dropWhile isWhiteSpace (rev ?d))"
      using ne' by (simp add: trim_def last_rev)
    ultimately show "\<not> isWhiteSpace (last (trim s))" by simp
  qed
  from 1 2 3 4 show ?thesis by blast
qed

lemma stripped_trim: "stripped s (trim s)"
  using trim_surrounding [of s] unfolding stripped_def by blast

lemma stripped_unique:
  assumes "stripped s n"
  shows "n = trim s"
proof -
  from assms obtain l r where s: "s = l @ n @ r"
    and l: "\<forall>c \<in> set l. isWhiteSpace c" and r: "\<forall>c \<in> set r. isWhiteSpace c"
    unfolding stripped_def list_all_iff by blast
  show ?thesis
  proof (cases "n = []")
    case True
    with s l r have "\<forall>c \<in> set s. isWhiteSpace c" by auto
    then have dw: "dropWhile isWhiteSpace s = []" by simp
    show ?thesis unfolding trim_def dw True by simp
  next
    case False
    with assms have first: "\<not> isWhiteSpace (hd n)" and final: "\<not> isWhiteSpace (last n)"
      unfolding stripped_def by blast+
    from False obtain a n' where n: "n = a # n'" by (cases n) auto
    from False obtain m b where m: "n = m @ [b]" by (cases n rule: rev_cases) auto
    have "dropWhile isWhiteSpace s = dropWhile isWhiteSpace (n @ r)"
      unfolding s using l by (simp only: dropWhile_append2)
    also have "\<dots> = n @ r"
      using first by (simp add: n)
    finally have d: "dropWhile isWhiteSpace s = n @ r" .
    have "dropWhile isWhiteSpace (rev (n @ r)) = dropWhile isWhiteSpace (rev n)"
      using r by (simp add: dropWhile_append)
    also have "\<dots> = rev n"
      using final by (simp add: m)
    finally have "dropWhile isWhiteSpace (rev (dropWhile isWhiteSpace s)) = rev n"
      by (simp only: d)
    then show ?thesis by (simp add: trim_def)
  qed
qed

lemma stripped_iff: "stripped s n \<longleftrightarrow> n = trim s"
  using stripped_trim stripped_unique by blast

lemma set_extractLinks_stripped:
  "set (extractLinks content) =
     {n. n \<noteq> [] \<and>
         (\<exists>t \<in> set (map (\<lambda>m. slice_str m 2 (- 2)) (matchAll content)).
            stripped (takeWhile (\<lambda>c. c \<noteq> BAR) t) n)}"
  unfolding stripped_iff by (rule set_extractLinks)

lemma extractLinks_no_surrounding:
  assumes "n \<in> set (extractLinks content)"
  shows "n \<noteq> [] \<and> \<not> isWhiteSpace (hd n) \<and> \<not> isWhiteSpace (last n)"
proof -
  from assms obtain t where "n \<noteq> []" "stripped t n"
    unfolding set_extractLinks_stripped by blast
  then show ?thesis
    unfolding stripped_def by blast
qed

text \<open>
  Claim C1.  For every content there is a scan, and for the scan of the content
  (there is one only, \<open>scan_unique\<close>) the set \<open>links\<close> that \<open>updateFileCache\<close> builds
  holds exactly the non-empty strings got from a target by dropping what follows the
  first bar, the bar included, and taking away the surrounding white space.  So no link
  name is empty, starts with white space or ends with it, and none is in the set twice.
  A content with no two closing brackets in a row gives the empty set, and nothing is
  thrown: the function is total.  The content \<open>See [[Foo Bar|display]] and [[Baz]]\<close>
  gives \<open>Foo Bar\<close> and \<open>Baz\<close>; so does \<open>[[ Foo Bar |display]] [[Baz ]] [[ ]]\<close>, where
  there are spaces to take away and a target of one space; and a target \<open>A\<close> between a tab
  and an em space before it and a byte order mark and a line feed after it gives \<open>A\<close>.
\<close>

theorem extractLinks_scan:
  "(\<exists>ts. scan content ts) \<and>
   (\<forall>ts. scan content ts \<longrightarrow>
      set (extractLinks content) =
        {n. n \<noteq> [] \<and> (\<exists>t \<in> set ts. stripped (takeWhile (\<lambda>c. c \<noteq> BAR) t) n)}) \<and>
   (\<forall>n \<in> set (extractLinks content).
      n \<noteq> [] \<and> \<not> isWhiteSpace (hd n) \<and> \<not> isWhiteSpace (last n)) \<and>
   distinct (extractLinks content) \<and>
   ((\<forall>pre post. content \<noteq> pre @ [RBRACKET, RBRACKET] @ post) \<longrightarrow> extractLinks content = []) \<and>
   set (extractLinks (str ''See [[Foo Bar|display]] and [[Baz]]'')) = {str ''Foo Bar'', str ''Baz''} \<and>
   set (extractLinks (str ''[[ Foo Bar |display]] [[Baz ]] [[ ]]'')) = {str ''Foo Bar'', str ''Baz''} \<and>
   extractLinks ([0x5B, 0x5B, 0x0009, 0x2003, 0x41, 0xFEFF, 0x000A, 0x5D, 0x5D]) = [[0x41]]"
proof (intro conjI allI impI ballI)
  show "\<exists>ts. scan content ts"
    using scan_matchAll by blast
next
  fix ts
  assume "scan content ts"
  then have "ts = map (\<lambda>m. slice_str m 2 (- 2)) (matchAll content)"
    using scan_matchAll by (rule scan_unique)
  then show "set (extractLinks content) =
        {n. n \<noteq> [] \<and> (\<exists>t \<in> set ts. stripped (takeWhile (\<lambda>c. c \<noteq> BAR) t) n)}"
    by (simp only: set_extractLinks_stripped)
next
  fix n
  assume "n \<in> set (extractLinks content)"
  then have *: "n \<noteq> [] \<and> \<not> isWhiteSpace (hd n) \<and> \<not> isWhiteSpace (last n)"
    by (rule extractLinks_no_surrounding)
  from * show "n \<noteq> []" by blast
  from * show "\<not> isWhiteSpace (hd n)" by blast
  from * show "\<not> isWhiteSpace (last n)" by blast
next
  show "distinct (extractLinks content)"
    by (rule distinct_extractLinks)
next
  assume "\<forall>pre post. content \<noteq> pre @ [RBRACKET, RBRACKET] @ post"
  then show "extractLinks content = []"
    by (rule extractLinks_no_closing)
next
  have "extractLinks (str ''See [[Foo Bar|display]] and [[Baz]]'') = [str ''Foo Bar'', str ''Baz'']"
    by (simp add: extract_eval)
  then show "set (extractLinks (str ''See [[Foo Bar|display]] and [[Baz]]''))
      = {str ''Foo Bar'', str ''Baz''}"
    by simp
next
  have "extractLinks (str ''[[ Foo Bar |display]] [[Baz ]] [[ ]]'') = [str ''Foo Bar'', str ''Baz'']"
    by (simp add: extract_eval)
  then show "set (extractLinks (str ''[[ Foo Bar |display]] [[Baz ]] [[ ]]''))
      = {str ''Foo Bar'', str ''Baz''}"
    by simp
next
  show "extractLinks ([0x5B, 0x5B, 0x0009, 0x2003, 0x41, 0xFEFF, 0x000A, 0x5D, 0x5D]) = [[0x41]]"
    by (simp add: extract_eval)
qed

theorem extractLinks_scan_witness:
  "scan (str ''[[ Foo Bar |display]] and [[Baz ]]'') [str '' Foo Bar |display'', str ''Baz ''] \<and>
   set (extractLinks (str ''[[ Foo Bar |display]] and [[Baz ]]'')) = {str ''Foo Bar'', str ''Baz''} \<and>
   \<not> isWhiteSpace (hd (str ''Foo Bar'')) \<and> \<not> isWhiteSpace (last (str ''Foo Bar'')) \<and>
   (\<forall>pre post. str ''[[unterminated'' \<noteq> pre @ [RBRACKET, RBRACKET] @ post) \<and>
   extractLinks (str ''[[unterminated'') = []"
proof -
  let ?c = "str ''[[ Foo Bar |display]] and [[Baz ]]''"
  have "map (\<lambda>m. slice_str m 2 (- 2)) (matchAll ?c) = [str '' Foo Bar |display'', str ''Baz '']"
    by (simp add: extract_eval)
  with scan_matchAll [of ?c]
  have sc: "scan ?c [str '' Foo Bar |display'', str ''Baz '']" by simp
  have b1: "takeWhile (\<lambda>c. c \<noteq> BAR) (str '' Foo Bar |display'') = str '' Foo Bar ''"
    by (simp add: str_def BAR_def)
  have b2: "takeWhile (\<lambda>c. c \<noteq> BAR) (str ''Baz '') = str ''Baz ''"
    by (simp add: str_def BAR_def)
  have s1: "stripped (str '' Foo Bar '') n \<longleftrightarrow> n = str ''Foo Bar''" for n
    unfolding stripped_iff by (simp add: trim_def isWhiteSpace_def str_def)
  have s2: "stripped (str ''Baz '') n \<longleftrightarrow> n = str ''Baz''" for n
    unfolding stripped_iff by (simp add: trim_def isWhiteSpace_def str_def)
  have ne: "str ''Foo Bar'' \<noteq> [] \<and> str ''Baz'' \<noteq> []"
    by (simp add: str_def)
  note inst = extractLinks_scan [of ?c]
  from inst [THEN conjunct2, THEN conjunct1, rule_format, OF sc]
  have "set (extractLinks ?c) =
      {n. n \<noteq> [] \<and> (\<exists>t \<in> set [str '' Foo Bar |display'', str ''Baz ''].
          stripped (takeWhile (\<lambda>c. c \<noteq> BAR) t) n)}" .
  also have "\<dots> = {n. n \<noteq> [] \<and> (n = str ''Foo Bar'' \<or> n = str ''Baz'')}"
    by (simp add: b1 b2 s1 s2)
  also have "\<dots> = {str ''Foo Bar'', str ''Baz''}"
    using ne by auto
  finally have links: "set (extractLinks ?c) = {str ''Foo Bar'', str ''Baz''}" .
  from inst [THEN conjunct2, THEN conjunct2, THEN conjunct1]
  have ends: "\<forall>n \<in> {str ''Foo Bar'', str ''Baz''}.
      n \<noteq> [] \<and> \<not> isWhiteSpace (hd n) \<and> \<not> isWhiteSpace (last n)"
    unfolding links .
  have "RBRACKET \<notin> set (str ''[[unterminated'')"
    by (simp add: str_def RBRACKET_def)
  then have un: "\<forall>pre post. str ''[[unterminated'' \<noteq> pre @ [RBRACKET, RBRACKET] @ post"
    by (metis append_Cons in_set_conv_decomp)
  from extractLinks_scan [of "str ''[[unterminated''", THEN conjunct2, THEN conjunct2,
      THEN conjunct2, THEN conjunct2, THEN conjunct1, THEN mp, OF un]
  have empty: "extractLinks (str ''[[unterminated'') = []" .
  from ends [THEN bspec, OF insertI1]
  have e1: "\<not> isWhiteSpace (hd (str ''Foo Bar''))" and e2: "\<not> isWhiteSpace (last (str ''Foo Bar''))"
    by (rule conjunct2 [THEN conjunct1], rule conjunct2 [THEN conjunct2])
  from sc links e1 e2 un empty show ?thesis
    by (intro conjI)
qed

section \<open>Updating one entry\<close>

lemma contentAt_file:
  "getAbstractFileByPath a p = Some f \<Longrightarrow> is_TFile f \<Longrightarrow> read a f = Inr c \<Longrightarrow>
     contentAt a p = Some c"
  by (simp add: contentAt_def)

lemma linkCache_updateFileCache:
  "linkCache (updateFileCache a p skipRefresh s) =
     (case contentAt a p of
        None \<Rightarrow> linkCache s
      | Some c \<Rightarrow> mapSet p (extractLinks c) (linkCache s))"
  by (simp add: updateFileCache_def contentAt_def refreshView_def Let_def
           split: option.splits sum.splits)

text \<open>
  Claim C10.  When the path given to \<open>updateFileCache\<close> is not that of a file of the
  vault (nothing stands there, or a folder does), the function returns the state it was
  given: no entry of the cache is created or changed, at this key or another, and
  \<open>refreshView\<close> is not called.
\<close>

theorem updateFileCache_not_a_file:
  assumes "getAbstractFileByPath a p = None \<or> (\<exists>q. getAbstractFileByPath a p = Some (TFolder q))"
  shows "updateFileCache a p skipRefresh s = s"
  using assms by (auto simp: updateFileCache_def)

theorem updateFileCache_not_a_file_witness:
  "updateFileCache (hostOf [(TFolder (str ''notes''), Inl [])]) (str ''notes'') False
     \<lparr>linkCache = [(str ''A.md'', [str ''X''])], refreshes = 3, console = []\<rparr>
   = \<lparr>linkCache = [(str ''A.md'', [str ''X''])], refreshes = 3, console = []\<rparr> \<and>
   updateFileCache (hostOf [(TFolder (str ''notes''), Inl [])]) (str ''gone.md'') False
     \<lparr>linkCache = [(str ''gone.md'', [str ''X''])], refreshes = 3, console = []\<rparr>
   = \<lparr>linkCache = [(str ''gone.md'', [str ''X''])], refreshes = 3, console = []\<rparr>"
proof -
  let ?a = "hostOf [(TFolder (str ''notes''), Inl [])]"
  have folder: "getAbstractFileByPath ?a (str ''notes'') = None \<or>
    (\<exists>q. getAbstractFileByPath ?a (str ''notes'') = Some (TFolder q))"
    by (simp add: hostOf_def)
  have missing: "getAbstractFileByPath ?a (str ''gone.md'') = None \<or>
    (\<exists>q. getAbstractFileByPath ?a (str ''gone.md'') = Some (TFolder q))"
    by (simp add: hostOf_def str_def)
  show ?thesis
    using updateFileCache_not_a_file [OF folder] updateFileCache_not_a_file [OF missing]
    by simp
qed

text \<open>
  Claim C7.  Calling \<open>updateFileCache\<close> twice in succession for the same path leaves
  the cache as one call does, entry for entry: when the host is unchanged in between,
  whatever the path; and when the file at the path is read with the same content both
  times, whatever else the host answers.
\<close>

theorem updateFileCache_idempotent:
  "linkCache (updateFileCache a p skip2 (updateFileCache a p skip1 s)) =
     linkCache (updateFileCache a p skip1 s) \<and>
   (getAbstractFileByPath a1 p = Some f1 \<and> is_TFile f1 \<and> read a1 f1 = Inr content \<and>
    getAbstractFileByPath a2 p = Some f2 \<and> is_TFile f2 \<and> read a2 f2 = Inr content \<longrightarrow>
      linkCache (updateFileCache a2 p skip2 (updateFileCache a1 p skip1 s)) =
        linkCache (updateFileCache a1 p skip1 s))"
proof (intro conjI impI)
  show "linkCache (updateFileCache a p skip2 (updateFileCache a p skip1 s)) =
     linkCache (updateFileCache a p skip1 s)"
    by (simp add: linkCache_updateFileCache mapSet_idem split: option.splits)
next
  assume h: "getAbstractFileByPath a1 p = Some f1 \<and> is_TFile f1 \<and> read a1 f1 = Inr content \<and>
    getAbstractFileByPath a2 p = Some f2 \<and> is_TFile f2 \<and> read a2 f2 = Inr content"
  then have "contentAt a1 p = Some content" "contentAt a2 p = Some content"
    by (simp_all add: contentAt_file)
  then show "linkCache (updateFileCache a2 p skip2 (updateFileCache a1 p skip1 s)) =
        linkCache (updateFileCache a1 p skip1 s)"
    by (simp add: linkCache_updateFileCache mapSet_idem)
qed

theorem updateFileCache_idempotent_witness:
  "linkCache (updateFileCache (hostOf [(mdFile ''N.md'', Inr (str ''[[A]]'')), (mdFile ''A.md'', Inr [])])
      (str ''N.md'') False
      (updateFileCache (hostOf [(mdFile ''N.md'', Inr (str ''[[A]]''))]) (str ''N.md'') False initial))
   = linkCache (updateFileCache (hostOf [(mdFile ''N.md'', Inr (str ''[[A]]''))]) (str ''N.md'')
       False initial)"
proof -
  let ?a1 = "hostOf [(mdFile ''N.md'', Inr (str ''[[A]]''))]"
  let ?a2 = "hostOf [(mdFile ''N.md'', Inr (str ''[[A]]'')), (mdFile ''A.md'', Inr [])]"
  have h: "getAbstractFileByPath ?a1 (str ''N.md'') = Some (mdFile ''N.md'') \<and>
      is_TFile (mdFile ''N.md'') \<and> read ?a1 (mdFile ''N.md'') = Inr (str ''[[A]]'') \<and>
      getAbstractFileByPath ?a2 (str ''N.md'') = Some (mdFile ''N.md'') \<and>
      is_TFile (mdFile ''N.md'') \<and> read ?a2 (mdFile ''N.md'') = Inr (str ''[[A]]'')"
    by (simp add: host_eval)
  from updateFileCache_idempotent [of ?a1 "str ''N.md''" False False initial ?a1 "mdFile ''N.md''"
      "str ''[[A]]''" ?a2 "mdFile ''N.md''", THEN conjunct2, THEN mp, OF h]
  show ?thesis .
qed

text \<open>
  Claim C5.  \<open>updateFileCache\<close> replaces the set at the key: after an update that read
  the content \<open>c1\<close> and an update of the same path that read \<open>c2\<close>, the set at the path
  is the one extracted from \<open>c2\<close> alone; with \<open>[[A]]\<close> then \<open>[[B]]\<close> it is \<open>{B}\<close>.
\<close>

theorem updateFileCache_replaces:
  assumes "getAbstractFileByPath a1 p = Some f1" "is_TFile f1" "read a1 f1 = Inr c1"
    and "getAbstractFileByPath a2 p = Some f2" "is_TFile f2" "read a2 f2 = Inr c2"
  shows "mapGet p (linkCache (updateFileCache a2 p skip2 (updateFileCache a1 p skip1 s)))
           = Some (extractLinks c2) \<and>
         (c1 = str ''[[A]]'' \<and> c2 = str ''[[B]]'' \<longrightarrow>
            mapGet p (linkCache (updateFileCache a2 p skip2 (updateFileCache a1 p skip1 s)))
              = Some [str ''B''])"
proof -
  have B: "extractLinks (str ''[[B]]'') = [str ''B'']"
    by (simp add: extract_eval)
  have "contentAt a2 p = Some c2"
    using assms(4-6) by (rule contentAt_file)
  then have "mapGet p (linkCache (updateFileCache a2 p skip2 (updateFileCache a1 p skip1 s)))
      = Some (extractLinks c2)"
    by (simp add: linkCache_updateFileCache [of a2] mapGet_mapSet)
  then show ?thesis using B by simp
qed

theorem updateFileCache_replaces_witness:
  "mapGet (str ''N.md'')
     (linkCache (updateFileCache (hostOf [(mdFile ''N.md'', Inr (str ''[[B]]''))]) (str ''N.md'') False
        (updateFileCache (hostOf [(mdFile ''N.md'', Inr (str ''[[A]]''))]) (str ''N.md'') False
           initial)))
   = Some [str ''B'']"
proof -
  let ?a1 = "hostOf [(mdFile ''N.md'', Inr (str ''[[A]]''))]"
  let ?a2 = "hostOf [(mdFile ''N.md'', Inr (str ''[[B]]''))]"
  have 1: "getAbstractFileByPath ?a1 (str ''N.md'') = Some (mdFile ''N.md'')"
    by (simp add: host_eval)
  have 2: "is_TFile (mdFile ''N.md'')"
    by (simp add: mdFile_def)
  have 3: "read ?a1 (mdFile ''N.md'') = Inr (str ''[[A]]'')"
    by (simp add: hostOf_def)
  have 4: "getAbstractFileByPath ?a2 (str ''N.md'') = Some (mdFile ''N.md'')"
    by (simp add: host_eval)
  have 5: "read ?a2 (mdFile ''N.md'') = Inr (str ''[[B]]'')"
    by (simp add: hostOf_def)
  from updateFileCache_replaces [OF 1 2 3 4 2 5, of False False initial, THEN conjunct2]
  show ?thesis by simp
qed

section \<open>Renaming\<close>

text \<open>
  Claim C6.  A rename changes the key: the host reports the event with a new path that
  differs from the old one.  When the old path is a key of the cache, the \<open>rename\<close>
  handler leaves its set, unchanged, at the new path and no entry at the old path; when the
  old path is not a key, the cache is as it was, so no entry appears at the new path.
\<close>

theorem onRename_moves:
  "(mapHas oldPath (linkCache s) \<and> path file \<noteq> oldPath \<longrightarrow>
      mapGet (path file) (linkCache (onRename file oldPath s)) = mapGet oldPath (linkCache s) \<and>
      \<not> mapHas oldPath (linkCache (onRename file oldPath s))) \<and>
   (\<not> mapHas oldPath (linkCache s) \<longrightarrow>
      linkCache (onRename file oldPath s) = linkCache s)"
  by (auto simp: onRename_def refreshView_def mapHas_def mapGet_mapSet mapGet_mapDelete
        mapGet_def [symmetric])

theorem onRename_moves_witness:
  "(mapHas (str ''id1'') [(str ''id1'', [str ''X''])] \<and> path (mdFile ''id2'') \<noteq> str ''id1'') \<and>
   mapGet (str ''id2'')
     (linkCache (onRename (mdFile ''id2'') (str ''id1'')
        \<lparr>linkCache = [(str ''id1'', [str ''X''])], refreshes = 0, console = []\<rparr>))
     = Some [str ''X''] \<and>
   \<not> mapHas (str ''id1'')
     (linkCache (onRename (mdFile ''id2'') (str ''id1'')
        \<lparr>linkCache = [(str ''id1'', [str ''X''])], refreshes = 0, console = []\<rparr>)) \<and>
   \<not> mapHas (str ''id1'') ([] :: (jsstring \<times> jsstring list) list) \<and>
   linkCache (onRename (mdFile ''id2'') (str ''id1'') initial) = []"
proof -
  have h1: "mapHas (str ''id1'') [(str ''id1'', [str ''X''])] \<and> path (mdFile ''id2'') \<noteq> str ''id1''"
    by (simp add: mapHas_def mdFile_def str_def)
  have h2: "\<not> mapHas (str ''id1'') (linkCache initial)"
    by (simp add: mapHas_def initial_def)
  show ?thesis
    using h1 h2
      onRename_moves [of "str ''id1''"
        "\<lparr>linkCache = [(str ''id1'', [str ''X''])], refreshes = 0, console = []\<rparr>" "mdFile ''id2''"]
      onRename_moves [of "str ''id1''" initial "mdFile ''id2''"]
    by (simp add: mdFile_def initial_def mapGet_def)
qed

section \<open>The orphans\<close>

lemma set_fold_setAdd: "set (fold setAdd xs acc) = set xs \<union> set acc"
  by (induction xs arbitrary: acc) (auto simp: set_setAdd)

lemma resolves_iff:
  "resolves (fold setAdd (map path fs) []) link \<longleftrightarrow>
     link @ str ''.md'' \<in> path ` set fs \<or> link \<in> path ` set fs"
  by (simp add: resolves_def setHas_def set_fold_setAdd)

lemma set_orphansOf:
  "set (orphansOf paths links acc) = set acc \<union> {l \<in> set links. \<not> resolves paths l}"
  unfolding orphansOf_def
  by (induction links arbitrary: acc) (auto simp: set_setAdd)

lemma distinct_orphansOf:
  "distinct acc \<Longrightarrow> distinct (orphansOf paths links acc)"
  unfolding orphansOf_def
  by (induction links arbitrary: acc) (auto simp: distinct_setAdd)

lemma set_orphans_loop:
  "set (fold (\<lambda>(k, links). orphansOf paths links) cache acc) =
     set acc \<union> (\<Union>(k, links) \<in> set cache. {l \<in> set links. \<not> resolves paths l})"
proof (induction cache arbitrary: acc)
  case Nil
  show ?case by simp
next
  case (Cons e cache)
  obtain k links where e: "e = (k, links)" by (cases e)
  show ?case
    by (simp add: e Cons.IH set_orphansOf Un_assoc)
qed

lemma distinct_orphans_loop:
  "distinct acc \<Longrightarrow> distinct (fold (\<lambda>(k, links). orphansOf paths links) cache acc)"
proof (induction cache arbitrary: acc)
  case Nil
  then show ?case by simp
next
  case (Cons e cache)
  obtain k links where e: "e = (k, links)" by (cases e)
  from Cons.prems have "distinct (orphansOf paths links acc)"
    by (rule distinct_orphansOf)
  then show ?case
    by (simp add: e Cons.IH)
qed

lemma getOrphans_loops:
  "getOrphans a s =
     sort (fold (\<lambda>(k, links). orphansOf (fold setAdd (map path (getMarkdownFiles a)) []) links)
             (linkCache s) [])"
  by (simp add: getOrphans_def orphansOf_def [abs_def] Let_def)

lemma set_getOrphans:
  "set (getOrphans a s) =
     {l. (\<exists>(k, links) \<in> set (linkCache s). l \<in> set links) \<and>
         \<not> (l @ str ''.md'' \<in> path ` set (getMarkdownFiles a) \<or>
            l \<in> path ` set (getMarkdownFiles a))}"
proof -
  have "set (getOrphans a s) =
      (\<Union>(k, links) \<in> set (linkCache s).
         {l \<in> set links. \<not> resolves (fold setAdd (map path (getMarkdownFiles a)) []) l})"
    by (simp add: getOrphans_loops set_orphans_loop)
  also have "\<dots> = {l. (\<exists>(k, links) \<in> set (linkCache s). l \<in> set links) \<and>
         \<not> (l @ str ''.md'' \<in> path ` set (getMarkdownFiles a) \<or>
            l \<in> path ` set (getMarkdownFiles a))}"
    unfolding resolves_iff by blast
  finally show ?thesis .
qed

lemma distinct_getOrphans: "distinct (getOrphans a s)"
  by (simp add: getOrphans_loops distinct_orphans_loop)

lemma sorted_getOrphans: "sorted (getOrphans a s)"
  by (simp add: getOrphans_loops)

text \<open>
  Claim C2.  A link name of the cache is left out of the result of \<open>getOrphans\<close> exactly
  when a markdown file of the vault has the link name itself as its path, or the link name
  followed by \<open>.md\<close>.  So when \<open>Target.md\<close> is a file, \<open>Target\<close> is not an orphan.
\<close>

theorem getOrphans_resolution:
  "(resolves (fold setAdd (map path (getMarkdownFiles a)) []) link \<longleftrightarrow>
      link \<in> path ` set (getMarkdownFiles a) \<or>
      link @ str ''.md'' \<in> path ` set (getMarkdownFiles a)) \<and>
   (link \<in> set (getOrphans a s) \<longleftrightarrow>
      (\<exists>(k, links) \<in> set (linkCache s). link \<in> set links) \<and>
      \<not> (link \<in> path ` set (getMarkdownFiles a) \<or>
         link @ str ''.md'' \<in> path ` set (getMarkdownFiles a))) \<and>
   (str ''Target.md'' \<in> path ` set (getMarkdownFiles a) \<longrightarrow>
      str ''Target'' \<notin> set (getOrphans a s))"
proof -
  have "str ''Target'' @ str ''.md'' = str ''Target.md''"
    by (simp add: str_def)
  then show ?thesis
    by (auto simp: set_getOrphans resolves_iff)
qed

theorem getOrphans_resolution_witness:
  "str ''Target.md'' \<in> path ` set (getMarkdownFiles (hostOf [(mdFile ''Target.md'', Inr [])])) \<and>
   str ''Target'' \<notin> set (getOrphans (hostOf [(mdFile ''Target.md'', Inr [])])
      \<lparr>linkCache = [(str ''A.md'', [str ''Target''])], refreshes = 0, console = []\<rparr>)"
proof -
  have h: "str ''Target.md'' \<in> path ` set (getMarkdownFiles (hostOf [(mdFile ''Target.md'', Inr [])]))"
    by (simp add: hostOf_def mdFile_def)
  from h getOrphans_resolution [THEN conjunct2, THEN conjunct2, THEN mp, OF h]
  show ?thesis by simp
qed

text \<open>
  Claim C3.  The result of \<open>getOrphans\<close> has no repetition, is in ascending order (the
  order of strings by their code units: the first differing code unit decides, a proper
  prefix comes first, so capital letters come before small ones), and holds exactly the
  link names of the sets of the cache that do not resolve.  When these are \<open>zeta\<close>,
  \<open>alpha\<close> and \<open>Beta\<close>, the result is \<open>Beta\<close>, \<open>alpha\<close>, \<open>zeta\<close>.
\<close>

theorem getOrphans_sorted_distinct:
  "distinct (getOrphans a s) \<and> sorted (getOrphans a s) \<and>
   set (getOrphans a s) =
     {l. (\<exists>(k, links) \<in> set (linkCache s). l \<in> set links) \<and>
         \<not> (l @ str ''.md'' \<in> path ` set (getMarkdownFiles a) \<or>
            l \<in> path ` set (getMarkdownFiles a))} \<and>
   (set (getOrphans a s) = {str ''zeta'', str ''alpha'', str ''Beta''} \<longrightarrow>
      getOrphans a s = [str ''Beta'', str ''alpha'', str ''zeta''])"
proof -
  have "getOrphans a s = [str ''Beta'', str ''alpha'', str ''zeta'']"
    if eq: "set (getOrphans a s) = {str ''zeta'', str ''alpha'', str ''Beta''}"
  proof (rule sorted_distinct_set_unique)
    show "sorted (getOrphans a s)" by (rule sorted_getOrphans)
    show "distinct (getOrphans a s)" by (rule distinct_getOrphans)
    show "sorted [str ''Beta'', str ''alpha'', str ''zeta'']" by (simp add: str_def)
    show "distinct [str ''Beta'', str ''alpha'', str ''zeta'']" by (simp add: str_def)
    show "set (getOrphans a s) = set [str ''Beta'', str ''alpha'', str ''zeta'']"
      using eq by auto
  qed
  then show ?thesis
    using distinct_getOrphans sorted_getOrphans set_getOrphans by blast
qed

theorem getOrphans_sorted_distinct_witness:
  "getOrphans (hostOf [(mdFile ''A.md'', Inr (str ''[[zeta]] [[alpha]] [[Beta]]''))])
     \<lparr>linkCache = [(str ''A.md'', [str ''zeta'', str ''alpha'', str ''Beta''])],
      refreshes = 0, console = []\<rparr>
   = [str ''Beta'', str ''alpha'', str ''zeta'']"
proof -
  let ?a = "hostOf [(mdFile ''A.md'', Inr (str ''[[zeta]] [[alpha]] [[Beta]]''))]"
  let ?s = "\<lparr>linkCache = [(str ''A.md'', [str ''zeta'', str ''alpha'', str ''Beta''])],
      refreshes = 0, console = []\<rparr>"
  have "getMarkdownFiles ?a = [mdFile ''A.md'']"
    by (simp add: hostOf_def mdFile_def)
  then have h: "set (getOrphans ?a ?s) = {str ''zeta'', str ''alpha'', str ''Beta''}"
    by (auto simp: set_getOrphans mdFile_def str_def)
  from getOrphans_sorted_distinct [of ?a ?s] h
  show ?thesis by blast
qed

lemma getOrphans_singleton:
  assumes "set (getOrphans a s) = {x}"
  shows "getOrphans a s = [x]"
proof (rule sorted_distinct_set_unique)
  show "sorted (getOrphans a s)" by (rule sorted_getOrphans)
  show "distinct (getOrphans a s)" by (rule distinct_getOrphans)
  show "set (getOrphans a s) = set [x]" using assms by simp
qed simp_all

lemma buildCache_no_files: "getMarkdownFiles a = [] \<Longrightarrow> buildCache a s = s"
  by (simp add: buildCache_def)

text \<open>
  Claim C4.  \<open>getOrphans\<close> is a function of the cache and of the markdown files the
  vault has when it is called; the state of the plugin holds no earlier result.  Starting
  from an empty vault, \<open>buildCache\<close> leaves the cache empty; once \<open>A.md\<close> with content
  \<open>[[Ghost]]\<close> has been indexed and no file is called \<open>Ghost\<close> or \<open>Ghost.md\<close>, the
  result is \<open>Ghost\<close> alone; once the vault has a file \<open>Ghost.md\<close>, the same state of
  the plugin gives the empty list.
\<close>

theorem getOrphans_fresh:
  assumes "getMarkdownFiles a0 = []"
    and "getAbstractFileByPath a1 (str ''A.md'') = Some f" "is_TFile f"
      "read a1 f = Inr (str ''[[Ghost]]'')"
    and "str ''Ghost'' \<notin> path ` set (getMarkdownFiles a1)"
      "str ''Ghost.md'' \<notin> path ` set (getMarkdownFiles a1)"
    and "str ''Ghost.md'' \<in> path ` set (getMarkdownFiles a2)"
  shows "linkCache (buildCache a0 initial) = [] \<and>
     getOrphans a1 (updateFileCache a1 (str ''A.md'') False (buildCache a0 initial))
       = [str ''Ghost''] \<and>
     getOrphans a2 (updateFileCache a1 (str ''A.md'') False (buildCache a0 initial)) = []"
proof -
  let ?s = "updateFileCache a1 (str ''A.md'') False (buildCache a0 initial)"
  have b: "buildCache a0 initial = initial"
    using assms(1) by (rule buildCache_no_files)
  have "contentAt a1 (str ''A.md'') = Some (str ''[[Ghost]]'')"
    using assms(2-4) by (rule contentAt_file)
  moreover have "extractLinks (str ''[[Ghost]]'') = [str ''Ghost'']"
    by (simp add: extract_eval)
  ultimately have c: "linkCache ?s = [(str ''A.md'', [str ''Ghost''])]"
    unfolding b by (simp add: linkCache_updateFileCache initial_def)
  have md: "str ''Ghost'' @ str ''.md'' = str ''Ghost.md''"
    by (simp add: str_def)
  have "set (getOrphans a1 ?s) = {str ''Ghost''}"
    using assms(5,6) by (auto simp: set_getOrphans c md)
  then have 1: "getOrphans a1 ?s = [str ''Ghost'']"
    by (rule getOrphans_singleton)
  have "set (getOrphans a2 ?s) = {}"
    using assms(7) by (auto simp: set_getOrphans c md)
  then have 2: "getOrphans a2 ?s = []"
    by simp
  show ?thesis
    using b 1 2 by (simp add: initial_def)
qed

theorem getOrphans_fresh_witness:
  "getOrphans (hostOf [(mdFile ''A.md'', Inr (str ''[[Ghost]]''))])
     (updateFileCache (hostOf [(mdFile ''A.md'', Inr (str ''[[Ghost]]''))]) (str ''A.md'') False
        (buildCache (hostOf []) initial))
     = [str ''Ghost''] \<and>
   getOrphans (hostOf [(mdFile ''A.md'', Inr (str ''[[Ghost]]'')), (mdFile ''Ghost.md'', Inr [])])
     (updateFileCache (hostOf [(mdFile ''A.md'', Inr (str ''[[Ghost]]''))]) (str ''A.md'') False
        (buildCache (hostOf []) initial))
     = []"
proof -
  let ?a1 = "hostOf [(mdFile ''A.md'', Inr (str ''[[Ghost]]''))]"
  let ?a2 = "hostOf [(mdFile ''A.md'', Inr (str ''[[Ghost]]'')), (mdFile ''Ghost.md'', Inr [])]"
  have 1: "getMarkdownFiles (hostOf []) = []"
    by (simp add: hostOf_def)
  have 2: "getAbstractFileByPath ?a1 (str ''A.md'') = Some (mdFile ''A.md'')"
    by (simp add: host_eval)
  have 3: "is_TFile (mdFile ''A.md'')"
    by (simp add: mdFile_def)
  have 4: "read ?a1 (mdFile ''A.md'') = Inr (str ''[[Ghost]]'')"
    by (simp add: hostOf_def)
  have 5: "str ''Ghost'' \<notin> path ` set (getMarkdownFiles ?a1)"
    by (simp add: host_eval)
  have 6: "str ''Ghost.md'' \<notin> path ` set (getMarkdownFiles ?a1)"
    by (simp add: host_eval)
  have 7: "str ''Ghost.md'' \<in> path ` set (getMarkdownFiles ?a2)"
    by (simp add: host_eval)
  from getOrphans_fresh [OF 1 2 3 4 5 6 7]
  show ?thesis by simp
qed

section \<open>Building the cache\<close>

lemma mapGet_updateFileCache:
  "mapGet q (linkCache (updateFileCache a p skipRefresh s)) =
     (if q = p
      then (case contentAt a p of
              None \<Rightarrow> mapGet q (linkCache s)
            | Some c \<Rightarrow> Some (extractLinks c))
      else mapGet q (linkCache s))"
  by (simp add: linkCache_updateFileCache mapGet_mapSet split: option.splits)

lemma mapGet_fold_updateFileCache:
  "mapGet q (linkCache (fold (\<lambda>file. updateFileCache a (path file) True) fs s)) =
     (if q \<in> path ` set fs
      then (case contentAt a q of
              None \<Rightarrow> mapGet q (linkCache s)
            | Some c \<Rightarrow> Some (extractLinks c))
      else mapGet q (linkCache s))"
proof (induction fs arbitrary: s)
  case Nil
  show ?case by simp
next
  case (Cons x fs)
  show ?case
    by (simp add: Cons.IH mapGet_updateFileCache split: option.splits)
qed

lemma console_updateFileCache:
  "set (console s) \<subseteq> set (console (updateFileCache a p skipRefresh s))"
  by (auto simp: updateFileCache_def refreshView_def Let_def split: option.splits sum.splits)

lemma console_fold_updateFileCache:
  "set (console s) \<subseteq> set (console (fold (\<lambda>file. updateFileCache a (path file) True) fs s))"
proof (induction fs arbitrary: s)
  case Nil
  show ?case by simp
next
  case (Cons x fs)
  have "set (console s) \<subseteq> set (console (updateFileCache a (path x) True s))"
    by (rule console_updateFileCache)
  also have "\<dots> \<subseteq> set (console (fold (\<lambda>file. updateFileCache a (path file) True) fs
      (updateFileCache a (path x) True s)))"
    by (rule Cons.IH)
  finally show ?case by simp
qed

lemma console_read_failure:
  assumes "file \<in> set fs" "getAbstractFileByPath a (path file) = Some g" "is_TFile g"
    "read a g = Inl err"
  shows "err \<in> set (console (fold (\<lambda>file. updateFileCache a (path file) True) fs s))"
  using assms(1)
proof (induction fs arbitrary: s)
  case Nil
  then show ?case by simp
next
  case (Cons x fs)
  show ?case
  proof (cases "x = file")
    case True
    have "err \<in> set (console (updateFileCache a (path file) True s))"
      using assms(2-4) by (simp add: updateFileCache_def)
    then show ?thesis
      using console_fold_updateFileCache [of "updateFileCache a (path file) True s" a fs] True
      by auto
  next
    case False
    with Cons.prems have "file \<in> set fs" by simp
    then show ?thesis by (simp add: Cons.IH)
  qed
qed

text \<open>
  Claim C9.  \<open>buildCache\<close> calls \<open>updateFileCache\<close> for every markdown file, and a
  failure to read one of them is caught inside that call.  So, whatever happens with the
  other files: a file that is read has the links of its content at its path after
  \<open>buildCache\<close>, and those of them that do not resolve are in the result of
  \<open>getOrphans\<close>; a file whose read fails keeps the entry it had before, or none, and the
  failure is on the console, not thrown.
\<close>

theorem buildCache_isolates_failures:
  "(good \<in> set (getMarkdownFiles a) \<and> getAbstractFileByPath a (path good) = Some f \<and>
    is_TFile f \<and> read a f = Inr c \<longrightarrow>
      mapGet (path good) (linkCache (buildCache a s)) = Some (extractLinks c) \<and>
      (\<forall>link \<in> set (extractLinks c).
         link \<notin> path ` set (getMarkdownFiles a) \<and>
         link @ str ''.md'' \<notin> path ` set (getMarkdownFiles a) \<longrightarrow>
           link \<in> set (getOrphans a (buildCache a s)))) \<and>
   (bad \<in> set (getMarkdownFiles a) \<and> getAbstractFileByPath a (path bad) = Some g \<and>
    is_TFile g \<and> read a g = Inl err \<longrightarrow>
      mapGet (path bad) (linkCache (buildCache a s)) = mapGet (path bad) (linkCache s) \<and>
      err \<in> set (console (buildCache a s)))"
proof (intro conjI impI)
  assume good: "good \<in> set (getMarkdownFiles a) \<and> getAbstractFileByPath a (path good) = Some f \<and>
    is_TFile f \<and> read a f = Inr c"
  then have "contentAt a (path good) = Some c"
    by (simp add: contentAt_file)
  with good show entry: "mapGet (path good) (linkCache (buildCache a s)) = Some (extractLinks c)"
    by (simp add: buildCache_def mapGet_fold_updateFileCache)
  then have "(path good, extractLinks c) \<in> set (linkCache (buildCache a s))"
    by (simp add: mapGet_def map_of_SomeD)
  then show "\<forall>link \<in> set (extractLinks c).
         link \<notin> path ` set (getMarkdownFiles a) \<and>
         link @ str ''.md'' \<notin> path ` set (getMarkdownFiles a) \<longrightarrow>
           link \<in> set (getOrphans a (buildCache a s))"
    unfolding set_getOrphans by blast
next
  assume bad: "bad \<in> set (getMarkdownFiles a) \<and> getAbstractFileByPath a (path bad) = Some g \<and>
    is_TFile g \<and> read a g = Inl err"
  then have "contentAt a (path bad) = None"
    by (simp add: contentAt_def)
  then show "mapGet (path bad) (linkCache (buildCache a s)) = mapGet (path bad) (linkCache s)"
    by (simp add: buildCache_def mapGet_fold_updateFileCache)
  from bad show "err \<in> set (console (buildCache a s))"
    unfolding buildCache_def by (blast intro: console_read_failure)
qed

theorem buildCache_isolates_failures_witness:
  "mapGet (str ''Good.md'')
     (linkCache (buildCache
        (hostOf [(mdFile ''Bad.md'', Inl (str ''EIO'')), (mdFile ''Good.md'', Inr (str ''[[Ghost]]''))])
        initial))
     = Some [str ''Ghost''] \<and>
   str ''Ghost'' \<in> set (getOrphans
        (hostOf [(mdFile ''Bad.md'', Inl (str ''EIO'')), (mdFile ''Good.md'', Inr (str ''[[Ghost]]''))])
        (buildCache
           (hostOf [(mdFile ''Bad.md'', Inl (str ''EIO'')), (mdFile ''Good.md'', Inr (str ''[[Ghost]]''))])
           initial)) \<and>
   mapGet (str ''Bad.md'')
     (linkCache (buildCache
        (hostOf [(mdFile ''Bad.md'', Inl (str ''EIO'')), (mdFile ''Good.md'', Inr (str ''[[Ghost]]''))])
        initial))
     = None \<and>
   str ''EIO'' \<in> set (console (buildCache
        (hostOf [(mdFile ''Bad.md'', Inl (str ''EIO'')), (mdFile ''Good.md'', Inr (str ''[[Ghost]]''))])
        initial))"
proof -
  let ?a = "hostOf [(mdFile ''Bad.md'', Inl (str ''EIO'')), (mdFile ''Good.md'', Inr (str ''[[Ghost]]''))]"
  have files: "getMarkdownFiles ?a = [mdFile ''Bad.md'', mdFile ''Good.md'']"
    by (simp add: hostOf_def mdFile_def)
  have good: "mdFile ''Good.md'' \<in> set (getMarkdownFiles ?a) \<and>
      getAbstractFileByPath ?a (path (mdFile ''Good.md'')) = Some (mdFile ''Good.md'') \<and>
      is_TFile (mdFile ''Good.md'') \<and> read ?a (mdFile ''Good.md'') = Inr (str ''[[Ghost]]'')"
    by (simp add: host_eval)
  have bad: "mdFile ''Bad.md'' \<in> set (getMarkdownFiles ?a) \<and>
      getAbstractFileByPath ?a (path (mdFile ''Bad.md'')) = Some (mdFile ''Bad.md'') \<and>
      is_TFile (mdFile ''Bad.md'') \<and> read ?a (mdFile ''Bad.md'') = Inl (str ''EIO'')"
    by (simp add: host_eval)
  have links: "extractLinks (str ''[[Ghost]]'') = [str ''Ghost'']"
    by (simp add: extract_eval)
  have unresolved: "str ''Ghost'' \<notin> path ` set (getMarkdownFiles ?a) \<and>
      str ''Ghost'' @ str ''.md'' \<notin> path ` set (getMarkdownFiles ?a)"
    by (simp add: host_eval)
  note inst = buildCache_isolates_failures [of "mdFile ''Good.md''" ?a "mdFile ''Good.md''"
      "str ''[[Ghost]]''" initial "mdFile ''Bad.md''" "mdFile ''Bad.md''" "str ''EIO''"]
  from inst good have 1: "mapGet (path (mdFile ''Good.md'')) (linkCache (buildCache ?a initial))
      = Some (extractLinks (str ''[[Ghost]]''))"
    by blast
  from inst good have "\<forall>link \<in> set (extractLinks (str ''[[Ghost]]'')).
         link \<notin> path ` set (getMarkdownFiles ?a) \<and>
         link @ str ''.md'' \<notin> path ` set (getMarkdownFiles ?a) \<longrightarrow>
           link \<in> set (getOrphans ?a (buildCache ?a initial))"
    by blast
  with unresolved have 2: "str ''Ghost'' \<in> set (getOrphans ?a (buildCache ?a initial))"
    by (simp add: links)
  from inst bad have 3: "mapGet (path (mdFile ''Bad.md'')) (linkCache (buildCache ?a initial))
      = mapGet (path (mdFile ''Bad.md'')) (linkCache initial)"
    and 4: "str ''EIO'' \<in> set (console (buildCache ?a initial))"
    by blast+
  have 5: "mapGet (path (mdFile ''Bad.md'')) (linkCache initial) = None"
    by (simp add: mapGet_def initial_def)
  show ?thesis
    using 1 2 3 4 5 by (simp add: links mdFile_def)
qed

section \<open>Creating the file of an orphan\<close>

lemma createFile_create_fails:
  assumes "create a (if endsWith link (str ''.md'') then link else link @ str ''.md'') [] = Inl message"
  shows "createFile a link = [Notice (str ''Failed to create file: '' @ message)]"
  using assms by (simp add: createFile_def Let_def)

lemma createFile_existing_opens:
  assumes "getAbstractFileByPath a
      (normalizePath a (if endsWith link (str ''.md'') then link else link @ str ''.md'')) = Some file"
    and "openFile a file = None"
  shows "createFile_existing a link =
     [Opened file,
      Notice (str ''Opened existing file: '' @
        normalizePath a (if endsWith link (str ''.md'') then link else link @ str ''.md''))]"
  using assms by (simp add: createFile_existing_def Let_def)

text \<open>
  Claim C8, at the input where the code leaves it.  The vault holds \<open>Ghost.md\<close> and
  refuses to create a file where one stands.  \<open>createFile\<close> for the link \<open>Ghost\<close>
  (lines 199 to 210 of \<open>src/unnamed/part_001\<close>, the same text in \<open>src/main.ts\<close>) catches
  the failure and shows it in a notice; it opens nothing.  The \<open>createFile\<close> of the
  revision in \<open>src/README.md\<close> finds the file, opens it and says so.
\<close>

theorem createFile_conflict:
  "createFile (hostOf [(mdFile ''Ghost.md'', Inr [])]) (str ''Ghost'')
     = [Notice (str ''Failed to create file: File already exists.'')] \<and>
   createFile_existing (hostOf [(mdFile ''Ghost.md'', Inr [])]) (str ''Ghost'')
     = [Opened (mdFile ''Ghost.md''), Notice (str ''Opened existing file: Ghost.md'')]"
  by (simp add: createFile_def createFile_existing_def endsWith_def suffix_to_prefix host_eval Let_def)

end
